theory Spec2Isabelle
  imports Complex_Main "HOL-Library.AList"
begin

section \<open>Python values\<close>

text \<open>
  Python floats are modelled as real numbers: the arithmetic of the source is read as exact
  arithmetic, and rounding is outside the model.  Where a property depends on the values
  \<open>inf\<close> and \<open>nan\<close> that a float can also take, the code is modelled a second time over
  \<open>pyfloat\<close>, which adds these values to the reals.  A Python \<open>dict\<close> keeps its keys in
  insertion order, so it is an association list whose keys are pairwise distinct;
  assigning to an existing key keeps the key's position, assigning to a new key appends.
\<close>

type_synonym ('k, 'v) dict = "('k \<times> 'v) list"

datatype py_error = KeyError

definition dict_keys :: "('k, 'v) dict \<Rightarrow> 'k list" where
  "dict_keys d = map fst d"

definition dict_values :: "('k, 'v) dict \<Rightarrow> 'v list" where
  "dict_values d = map snd d"

definition dict_set :: "('k, 'v) dict \<Rightarrow> 'k \<Rightarrow> 'v \<Rightarrow> ('k, 'v) dict" where
  "dict_set d k v = AList.update k v d"

definition dict_get :: "('k, 'v) dict \<Rightarrow> 'k \<Rightarrow> py_error + 'v" where
  "dict_get d k = (case map_of d k of None \<Rightarrow> Inl KeyError | Some v \<Rightarrow> Inr v)"

definition dict_get_default :: "('k, 'v) dict \<Rightarrow> 'k \<Rightarrow> 'v \<Rightarrow> 'v" where
  "dict_get_default d k dflt = (case map_of d k of None \<Rightarrow> dflt | Some v \<Rightarrow> v)"

definition dict_del :: "('k, 'v) dict \<Rightarrow> 'k \<Rightarrow> py_error + ('k, 'v) dict" where
  "dict_del d k = (if k \<in> set (dict_keys d) then Inr (AList.delete k d) else Inl KeyError)"

definition wf_dict :: "('k, 'v) dict \<Rightarrow> bool" where
  "wf_dict d = distinct (dict_keys d)"

text \<open>
  A \<open>for\<close> loop whose body may raise: the state is threaded through the elements in
  order and the first error ends the loop.
\<close>

fun for_each :: "('a \<Rightarrow> 's \<Rightarrow> py_error + 's) \<Rightarrow> 'a list \<Rightarrow> 's \<Rightarrow> py_error + 's" where
  "for_each body [] s = Inr s"
| "for_each body (x # xs) s =
     (case body x s of Inl e \<Rightarrow> Inl e | Inr s' \<Rightarrow> for_each body xs s')"

text \<open>The slice \<open>xs[-n:]\<close> for a positive \<open>n\<close>: the last \<open>n\<close> elements, or all of a shorter list.\<close>

definition slice_last :: "nat \<Rightarrow> 'a list \<Rightarrow> 'a list" where
  "slice_last n xs = drop (length xs - n) xs"

section \<open>core\_interface: CognitiveNetwork\<close>

record Node =
  activation :: real

record Edge =
  weight :: real
  causal_strength :: real

record CognitiveNetwork =
  nodes :: "(string, Node) dict"
  edges :: "(string \<times> string, Edge) dict"

definition empty_network :: CognitiveNetwork where
  "empty_network = \<lparr>nodes = [], edges = []\<rparr>"

definition wf_network :: "CognitiveNetwork \<Rightarrow> bool" where
  "wf_network net = (wf_dict (nodes net) \<and> wf_dict (edges net))"

definition add_node :: "CognitiveNetwork \<Rightarrow> string \<Rightarrow> real \<Rightarrow> CognitiveNetwork" where
  "add_node net node_id act = net\<lparr>nodes := dict_set (nodes net) node_id \<lparr>activation = act\<rparr>\<rparr>"

definition add_edge :: "CognitiveNetwork \<Rightarrow> string \<Rightarrow> string \<Rightarrow> real \<Rightarrow> real \<Rightarrow> CognitiveNetwork" where
  "add_edge net src dst w cs =
     net\<lparr>edges := dict_set (edges net) (src, dst) \<lparr>weight = w, causal_strength = cs\<rparr>\<rparr>"

subsection \<open>propagate\<close>

text \<open>
  The inner loop of \<open>propagate\<close> over the edge items.  The test \<open>src in self.nodes\<close> and
  the read \<open>self.nodes[src]\<close> that it guards are one lookup.
\<close>

definition incoming_loop :: "CognitiveNetwork \<Rightarrow> string \<Rightarrow> real" where
  "incoming_loop net node_id =
     fold (\<lambda>((src, dst), edge) incoming.
             if dst = node_id then
               (case map_of (nodes net) src of
                  Some nd \<Rightarrow> incoming + activation nd * weight edge
                | None \<Rightarrow> incoming)
             else incoming)
       (edges net) 0"

text \<open>The first loop of a step fills \<open>new_activations\<close>, reading only \<open>self\<close>.\<close>

definition new_activations_body ::
  "CognitiveNetwork \<Rightarrow> string \<Rightarrow> (string, real) dict \<Rightarrow> py_error + (string, real) dict" where
  "new_activations_body net node_id new_activations =
     (case dict_get (nodes net) node_id of
        Inl e \<Rightarrow> Inl e
      | Inr nd \<Rightarrow>
          Inr (dict_set new_activations node_id
                 (0.9 * activation nd + 0.1 * tanh (incoming_loop net node_id))))"

text \<open>The second loop writes \<open>new_activations\<close> back into the nodes.\<close>

definition write_back_body ::
  "string \<times> real \<Rightarrow> (string, Node) dict \<Rightarrow> py_error + (string, Node) dict" where
  "write_back_body item ns =
     (case item of (node_id, act) \<Rightarrow>
        (case dict_get ns node_id of
           Inl e \<Rightarrow> Inl e
         | Inr nd \<Rightarrow> Inr (dict_set ns node_id (nd\<lparr>activation := act\<rparr>))))"

definition propagate_step :: "CognitiveNetwork \<Rightarrow> py_error + CognitiveNetwork" where
  "propagate_step net =
     (case for_each (new_activations_body net) (dict_keys (nodes net)) [] of
        Inl e \<Rightarrow> Inl e
      | Inr new_activations \<Rightarrow>
          (case for_each write_back_body new_activations (nodes net) of
             Inl e \<Rightarrow> Inl e
           | Inr ns \<Rightarrow> Inr (net\<lparr>nodes := ns\<rparr>)))"

text \<open>\<open>for _ in range(steps)\<close>: no iteration when \<open>steps\<close> is not positive.\<close>

fun propagate_loop :: "nat \<Rightarrow> CognitiveNetwork \<Rightarrow> py_error + CognitiveNetwork" where
  "propagate_loop 0 net = Inr net"
| "propagate_loop (Suc k) net =
     (case propagate_step net of Inl e \<Rightarrow> Inl e | Inr net' \<Rightarrow> propagate_loop k net')"

definition propagate :: "CognitiveNetwork \<Rightarrow> int \<Rightarrow> py_error + CognitiveNetwork" where
  "propagate net steps = propagate_loop (nat steps) net"

text \<open>
  The step as the specification words it.  \<open>incoming_sum\<close> adds
  \<open>source_activation * edge_weight\<close> over the edges whose destination is the node and whose
  source is a node; \<open>simultaneous_update\<close> gives every node its new activation from the
  one network before the step, and keeps the edges.
\<close>

definition incoming_sum :: "CognitiveNetwork \<Rightarrow> string \<Rightarrow> real" where
  "incoming_sum net node_id =
     sum_list
       (map (\<lambda>((src, dst), edge). activation (the (map_of (nodes net) src)) * weight edge)
          (filter (\<lambda>((src, dst), edge). dst = node_id \<and> src \<in> set (dict_keys (nodes net)))
             (edges net)))"

definition simultaneous_update :: "CognitiveNetwork \<Rightarrow> CognitiveNetwork" where
  "simultaneous_update net =
     net\<lparr>nodes :=
           map (\<lambda>(node_id, nd).
                  (node_id, nd\<lparr>activation := 0.9 * activation nd + 0.1 * tanh (incoming_sum net node_id)\<rparr>))
             (nodes net)\<rparr>"

text \<open>
  The entry of \<open>new_activations\<close> and the node after the step, for one item of the nodes
  before the step.
\<close>

definition new_item :: "CognitiveNetwork \<Rightarrow> string \<times> Node \<Rightarrow> string \<times> real" where
  "new_item net kv = (fst kv, 0.9 * activation (snd kv) + 0.1 * tanh (incoming_sum net (fst kv)))"

definition new_node :: "CognitiveNetwork \<Rightarrow> string \<times> Node \<Rightarrow> string \<times> Node" where
  "new_node net kv =
     (fst kv, (snd kv)\<lparr>activation := 0.9 * activation (snd kv) + 0.1 * tanh (incoming_sum net (fst kv))\<rparr>)"

subsection \<open>get\_degree\_distribution\<close>

text \<open>\<open>degrees[node_id] += 1\<close> on a \<open>defaultdict(int)\<close>: a missing key reads as 0.\<close>

definition defaultdict_incr :: "(string, int) dict \<Rightarrow> string \<Rightarrow> (string, int) dict" where
  "defaultdict_incr degrees node_id =
     dict_set degrees node_id (dict_get_default degrees node_id 0 + 1)"

text \<open>The inner loop over the edge keys, for one node.\<close>

definition degree_edges_loop ::
  "string \<Rightarrow> (string \<times> string) list \<Rightarrow> (string, int) dict \<Rightarrow> (string, int) dict" where
  "degree_edges_loop node_id es degrees =
     fold (\<lambda>(src, dst) dg. if src = node_id \<or> dst = node_id then defaultdict_incr dg node_id else dg)
       es degrees"

text \<open>The outer loop over the node keys.\<close>

definition degree_nodes_loop ::
  "string list \<Rightarrow> (string \<times> string) list \<Rightarrow> (string, int) dict \<Rightarrow> (string, int) dict" where
  "degree_nodes_loop ns es degrees = fold (\<lambda>node_id dg. degree_edges_loop node_id es dg) ns degrees"

definition get_degree_distribution :: "CognitiveNetwork \<Rightarrow> int list" where
  "get_degree_distribution net =
     dict_values (degree_nodes_loop (dict_keys (nodes net)) (dict_keys (edges net)) [])"

subsection \<open>compute\_structural\_differentiation\<close>

definition compute_structural_differentiation :: "CognitiveNetwork \<Rightarrow> real" where
  "compute_structural_differentiation net =
     (let degrees = get_degree_distribution net in
      if degrees = [] then 0
      else
        let avg_degree = real_of_int (sum_list degrees) / real (length degrees) in
        if avg_degree = 0 then 0
        else
          let variance =
                sum_list (map (\<lambda>d. (real_of_int d - avg_degree) ^ 2) degrees) / real (length degrees);
              cv = sqrt variance / avg_degree;
              max_degree = fold max (tl degrees) (hd degrees);
              hub_score = min 1 (real_of_int max_degree / (real (length degrees) * 0.3));
              differentiation = min 1 (cv * 0.5 + hub_score * 0.5)
          in differentiation)"

text \<open>
  The number of edge keys that have the node as source or as destination; an edge from a node
  to itself is one such key.
\<close>

definition incident_count :: "CognitiveNetwork \<Rightarrow> string \<Rightarrow> int" where
  "incident_count net node_id =
     int (length (filter (\<lambda>(src, dst). src = node_id \<or> dst = node_id) (dict_keys (edges net))))"

text \<open>
  The count that takes an edge once for each endpoint position that the node fills, so
  that an edge from a node to itself counts twice.
\<close>

definition endpoint_count :: "CognitiveNetwork \<Rightarrow> string \<Rightarrow> int" where
  "endpoint_count net node_id =
     int (length (filter (\<lambda>(src, dst). src = node_id) (dict_keys (edges net))))
     + int (length (filter (\<lambda>(src, dst). dst = node_id) (dict_keys (edges net))))"

section \<open>core\_interface: MemoryModule\<close>

record MemoryModule =
  persistence :: real
  memories :: "(string, real) dict"
  proto_language :: "string list"

text \<open>
  The first loop of \<open>decay\<close>: scale the strength under the key, then note the key when
  the strength has fallen below 0.01.
\<close>

definition decay_body ::
  "real \<Rightarrow> string \<Rightarrow> (string, real) dict \<times> string list
     \<Rightarrow> py_error + ((string, real) dict \<times> string list)" where
  "decay_body decay_rate key st =
     (case st of (mem, to_remove) \<Rightarrow>
        (case dict_get mem key of
           Inl e \<Rightarrow> Inl e
         | Inr v \<Rightarrow>
             (let mem' = dict_set mem key (v * (1 - decay_rate * 0.1)) in
              (case dict_get mem' key of
                 Inl e \<Rightarrow> Inl e
               | Inr v' \<Rightarrow>
                   if v' < 0.01 then Inr (mem', to_remove @ [key]) else Inr (mem', to_remove)))))"

definition decay :: "MemoryModule \<Rightarrow> py_error + MemoryModule" where
  "decay self =
     (let decay_rate = 1 - persistence self in
      (case for_each (decay_body decay_rate) (dict_keys (memories self)) (memories self, []) of
         Inl e \<Rightarrow> Inl e
       | Inr (mem, to_remove) \<Rightarrow>
           (case for_each (\<lambda>key m. dict_del m key) to_remove mem of
              Inl e \<Rightarrow> Inl e
            | Inr mem' \<Rightarrow> Inr (self\<lparr>memories := mem'\<rparr>))))"

definition decay_factor :: "MemoryModule \<Rightarrow> real" where
  "decay_factor self = 1 - (1 - persistence self) * 0.1"

text \<open>One entry of the map with its strength multiplied by a factor.\<close>

definition scale_entry :: "real \<Rightarrow> string \<times> real \<Rightarrow> string \<times> real" where
  "scale_entry f kv = (fst kv, snd kv * f)"

section \<open>core\_interface: CausalityEngine\<close>

type_synonym event = "string \<times> string \<times> real"

record CausalityEngine =
  events :: "event list"
  current_density :: real

text \<open>The engine that \<open>CausalityEngine()\<close> constructs.\<close>

definition new_engine :: CausalityEngine where
  "new_engine = \<lparr>events = [], current_density = 0\<rparr>"

definition event_strength :: "event \<Rightarrow> real" where
  "event_strength e = snd (snd e)"

definition update_density :: "CausalityEngine \<Rightarrow> CausalityEngine" where
  "update_density self =
     (if length (events self) = 0 then self\<lparr>current_density := 0\<rparr>
      else
        let recent = slice_last 100 (events self);
            total_strength = fold (\<lambda>e acc. acc + event_strength e) recent 0
        in self\<lparr>current_density := min 1 (total_strength / real (max (length recent) 1))\<rparr>)"

definition register_event :: "CausalityEngine \<Rightarrow> string \<Rightarrow> string \<Rightarrow> real \<Rightarrow> CausalityEngine" where
  "register_event self src dst strength =
     update_density (self\<lparr>events := events self @ [(src, dst, strength)]\<rparr>)"

text \<open>A sequence of \<open>register_event\<close> calls, one for each event of a list, in order.\<close>

definition register_all :: "CausalityEngine \<Rightarrow> event list \<Rightarrow> CausalityEngine" where
  "register_all self evs = fold (\<lambda>(src, dst, strength) e. register_event e src dst strength) evs self"

text \<open>The \<open>n\<close> most recently registered events of a log.\<close>

definition most_recent :: "nat \<Rightarrow> event list \<Rightarrow> event list" where
  "most_recent n evs = rev (take n (rev evs))"

subsection \<open>get\_causal\_chain\<close>

text \<open>The loop of \<open>get_causal_chain\<close>, with the iterations that \<open>range\<close> has left.\<close>

fun chain_loop :: "event list \<Rightarrow> nat \<Rightarrow> string list \<Rightarrow> string \<Rightarrow> string list" where
  "chain_loop evs 0 chain current = chain"
| "chain_loop evs (Suc k) chain current =
     (let next_nodes = map (\<lambda>(src, dst, _). dst) (filter (\<lambda>(src, dst, _). src = current) evs) in
      if next_nodes = [] then chain
      else chain_loop evs k (chain @ [last next_nodes]) (last next_nodes))"

definition get_causal_chain :: "CausalityEngine \<Rightarrow> string \<Rightarrow> int \<Rightarrow> string list" where
  "get_causal_chain self start max_depth = chain_loop (events self) (nat max_depth) [start] start"

text \<open>
  The walk as the specification words it: the destination of the event with the greatest
  index among the events whose source is the current node, for at most the given number
  of hops.
\<close>

definition outgoing_indices :: "event list \<Rightarrow> string \<Rightarrow> nat list" where
  "outgoing_indices evs current = filter (\<lambda>i. fst (evs ! i) = current) [0..<length evs]"

definition last_registered_dst :: "event list \<Rightarrow> string \<Rightarrow> string option" where
  "last_registered_dst evs current =
     (if outgoing_indices evs current = [] then None
      else Some (fst (snd (evs ! Max (set (outgoing_indices evs current))))))"

fun greedy_walk :: "event list \<Rightarrow> nat \<Rightarrow> string \<Rightarrow> string list" where
  "greedy_walk evs 0 current = [current]"
| "greedy_walk evs (Suc k) current =
     (case last_registered_dst evs current of
        None \<Rightarrow> [current]
      | Some nxt \<Rightarrow> current # greedy_walk evs k nxt)"

section \<open>meta\_law\_synthesis\<close>

datatype UniversalityClass =
  GRAMMAR_STRUCTURAL | FAST_PROPAGATION | SLOW_MEMORY | DENSE_DYNAMICAL

text \<open>The \<open>value\<close> of each enum member.\<close>

fun class_value :: "UniversalityClass \<Rightarrow> string" where
  "class_value GRAMMAR_STRUCTURAL = ''grammar_structural''"
| "class_value FAST_PROPAGATION = ''fast_propagation''"
| "class_value SLOW_MEMORY = ''slow_memory''"
| "class_value DENSE_DYNAMICAL = ''dense_dynamical''"

text \<open>
  The fields \<open>S\<close>, \<open>D\<close>, \<open>M\<close> of the dataclass carry the prefix \<open>cs_\<close>, so that the
  one-letter names stay free for variables.
\<close>

record CognitiveState =
  cs_S :: real
  cs_D :: real
  cs_M :: real
  capacity :: real
  phi :: int
  universality_class :: string
  threshold :: real
  active_laws :: "string list"

fun CLASS_THRESHOLDS :: "UniversalityClass \<Rightarrow> real" where
  "CLASS_THRESHOLDS GRAMMAR_STRUCTURAL = 0.003"
| "CLASS_THRESHOLDS FAST_PROPAGATION = 0.005"
| "CLASS_THRESHOLDS SLOW_MEMORY = 0.007"
| "CLASS_THRESHOLDS DENSE_DYNAMICAL = 0.010"

record Law =
  name :: string
  description :: string
  condition :: "real \<Rightarrow> real \<Rightarrow> real \<Rightarrow> bool"

definition LAWS :: "(string, Law) dict" where
  "LAWS =
    [(''structural_morality'',
        \<lparr>name = ''Structural Morality'',
         description = ''Morality emerges from network topology, not external rules'',
         condition = (\<lambda>s d m. s > 0.3 \<and> d > 0.2)\<rparr>),
     (''observation_independence'',
        \<lparr>name = ''Observation Independence'',
         description = ''Emergence is observer-independent'',
         condition = (\<lambda>s d m. s * d * m > 0.001)\<rparr>),
     (''causal_time'',
        \<lparr>name = ''Causal Time'',
         description = ''Time is causal density, not clock ticks'',
         condition = (\<lambda>s d m. d > 0.15)\<rparr>),
     (''memory_persistence'',
        \<lparr>name = ''Memory Persistence Law'',
         description = ''Memory enables pattern formation and cognition'',
         condition = (\<lambda>s d m. m > 0.02)\<rparr>),
     (''structural_differentiation'',
        \<lparr>name = ''Structural Differentiation'',
         description = ''Hubs, bridges, and clusters enable efficient cognition'',
         condition = (\<lambda>s d m. s > 0.4)\<rparr>)]"

record MetaLawSynthesis =
  predictions :: "CognitiveState list"

definition classify_universality_class :: "real \<Rightarrow> real \<Rightarrow> real \<Rightarrow> UniversalityClass" where
  "classify_universality_class s d m =
     (if s > 0.5 \<and> d < 0.5 then GRAMMAR_STRUCTURAL
      else if s > 0.6 \<and> m < 0.05 then FAST_PROPAGATION
      else if m > 0.08 then SLOW_MEMORY
      else if s < 0.3 \<and> d > 0.5 then DENSE_DYNAMICAL
      else GRAMMAR_STRUCTURAL)"

definition compute_capacity :: "real \<Rightarrow> real \<Rightarrow> real \<Rightarrow> real" where
  "compute_capacity s d m = s * d * m"

definition get_active_laws :: "real \<Rightarrow> real \<Rightarrow> real \<Rightarrow> string list" where
  "get_active_laws s d m =
     fold (\<lambda>(law_id, law) active. if condition law s d m then active @ [name law] else active)
       LAWS []"

text \<open>
  The \<open>params\<close> dictionary of \<open>predict\<close>, one optional field for each key the function
  reads.
\<close>

record params =
  param_S :: "real option"
  param_structural_differentiation :: "real option"
  param_D :: "real option"
  param_causal_density :: "real option"
  param_M :: "real option"
  param_memory_persistence :: "real option"
  param_network :: "CognitiveNetwork option"

text \<open>\<open>params.get(key, default)\<close>.\<close>

definition params_get :: "'a option \<Rightarrow> 'a \<Rightarrow> 'a" where
  "params_get field dflt = (case field of Some v \<Rightarrow> v | None \<Rightarrow> dflt)"

definition predict :: "MetaLawSynthesis \<Rightarrow> params \<Rightarrow> CognitiveState \<times> MetaLawSynthesis" where
  "predict self p =
     (let s0 = params_get (param_S p) (params_get (param_structural_differentiation p) 0.5);
          d = params_get (param_D p) (params_get (param_causal_density p) 0.3);
          m = params_get (param_M p) (params_get (param_memory_persistence p) 0.05);
          s = (case param_network p of
                 Some net \<Rightarrow> compute_structural_differentiation net
               | None \<Rightarrow> s0);
          uni_class = classify_universality_class s d m;
          thr = CLASS_THRESHOLDS uni_class;
          cap = compute_capacity s d m;
          ph = (if cap \<ge> thr then 1 else 0);
          laws = get_active_laws s d m;
          state = \<lparr>cs_S = s, cs_D = d, cs_M = m, capacity = cap, phi = ph,
                   universality_class = class_value uni_class, threshold = thr,
                   active_laws = laws\<rparr>
      in (state, self\<lparr>predictions := predictions self @ [state]\<rparr>))"

text \<open>The call \<open>predict({"S": s, "D": d, "M": m})\<close>.\<close>

definition params_SDM :: "real \<Rightarrow> real \<Rightarrow> real \<Rightarrow> params" where
  "params_SDM s d m =
     \<lparr>param_S = Some s, param_structural_differentiation = None,
      param_D = Some d, param_causal_density = None,
      param_M = Some m, param_memory_persistence = None,
      param_network = None\<rparr>"

text \<open>The record that this call returns.\<close>

definition predict_SDM :: "MetaLawSynthesis \<Rightarrow> real \<Rightarrow> real \<Rightarrow> real \<Rightarrow> CognitiveState" where
  "predict_SDM self s d m = fst (predict self (params_SDM s d m))"

section \<open>core\_interface: propagate over floats with infinities and NaN\<close>

text \<open>
  \<open>add_node\<close> and \<open>add_edge\<close> store any float they are given, also \<open>inf\<close>, \<open>-inf\<close> and
  \<open>nan\<close>.  A \<open>pyfloat\<close> is a real number or one of these three values; sums, products
  and \<open>math.tanh\<close> follow IEEE 754 on them (\<open>0 * inf\<close> and \<open>inf - inf\<close> are \<open>nan\<close>,
  \<open>nan\<close> spreads, \<open>tanh inf = 1\<close>), and are exact on the reals.
\<close>

datatype pyfloat = Finite real | PosInf | NegInf | NaN

fun float_add :: "pyfloat \<Rightarrow> pyfloat \<Rightarrow> pyfloat" where
  "float_add NaN _ = NaN"
| "float_add _ NaN = NaN"
| "float_add (Finite a) (Finite b) = Finite (a + b)"
| "float_add PosInf NegInf = NaN"
| "float_add NegInf PosInf = NaN"
| "float_add PosInf _ = PosInf"
| "float_add _ PosInf = PosInf"
| "float_add NegInf _ = NegInf"
| "float_add _ NegInf = NegInf"

fun float_neg :: "pyfloat \<Rightarrow> pyfloat" where
  "float_neg (Finite a) = Finite (- a)"
| "float_neg PosInf = NegInf"
| "float_neg NegInf = PosInf"
| "float_neg NaN = NaN"

fun float_mul :: "pyfloat \<Rightarrow> pyfloat \<Rightarrow> pyfloat" where
  "float_mul NaN _ = NaN"
| "float_mul _ NaN = NaN"
| "float_mul (Finite a) (Finite b) = Finite (a * b)"
| "float_mul (Finite a) x = (if a = 0 then NaN else if 0 < a then x else float_neg x)"
| "float_mul x (Finite b) = (if b = 0 then NaN else if 0 < b then x else float_neg x)"
| "float_mul PosInf x = x"
| "float_mul NegInf x = float_neg x"

fun float_tanh :: "pyfloat \<Rightarrow> pyfloat" where
  "float_tanh (Finite a) = Finite (tanh a)"
| "float_tanh PosInf = Finite 1"
| "float_tanh NegInf = Finite (- 1)"
| "float_tanh NaN = NaN"

text \<open>A comparison with \<open>nan\<close> is false, so \<open>nan\<close> lies in no interval.\<close>

fun is_finite :: "pyfloat \<Rightarrow> bool" where
  "is_finite (Finite a) = True"
| "is_finite _ = False"

fun in_unit_interval :: "pyfloat \<Rightarrow> bool" where
  "in_unit_interval (Finite a) = (- 1 \<le> a \<and> a \<le> 1)"
| "in_unit_interval _ = False"

text \<open>The network, with float values in the node and edge records.\<close>

record FloatNode =
  f_activation :: pyfloat

record FloatEdge =
  f_weight :: pyfloat
  f_causal_strength :: pyfloat

record FloatNetwork =
  f_nodes :: "(string, FloatNode) dict"
  f_edges :: "(string \<times> string, FloatEdge) dict"

definition float_empty_network :: FloatNetwork where
  "float_empty_network = \<lparr>f_nodes = [], f_edges = []\<rparr>"

definition float_add_node :: "FloatNetwork \<Rightarrow> string \<Rightarrow> pyfloat \<Rightarrow> FloatNetwork" where
  "float_add_node net node_id act =
     net\<lparr>f_nodes := dict_set (f_nodes net) node_id \<lparr>f_activation = act\<rparr>\<rparr>"

definition float_add_edge ::
  "FloatNetwork \<Rightarrow> string \<Rightarrow> string \<Rightarrow> pyfloat \<Rightarrow> pyfloat \<Rightarrow> FloatNetwork" where
  "float_add_edge net src dst w cs =
     net\<lparr>f_edges := dict_set (f_edges net) (src, dst) \<lparr>f_weight = w, f_causal_strength = cs\<rparr>\<rparr>"

text \<open>The loops of \<open>propagate\<close> as above, on these values.\<close>

definition float_incoming_loop :: "FloatNetwork \<Rightarrow> string \<Rightarrow> pyfloat" where
  "float_incoming_loop net node_id =
     fold (\<lambda>((src, dst), edge) incoming.
             if dst = node_id then
               (case map_of (f_nodes net) src of
                  Some nd \<Rightarrow> float_add incoming (float_mul (f_activation nd) (f_weight edge))
                | None \<Rightarrow> incoming)
             else incoming)
       (f_edges net) (Finite 0)"

text \<open>The right-hand side \<open>0.9 * current + 0.1 * math.tanh(incoming)\<close>.\<close>

definition float_new_activation :: "FloatNetwork \<Rightarrow> string \<Rightarrow> FloatNode \<Rightarrow> pyfloat" where
  "float_new_activation net node_id nd =
     float_add (float_mul (Finite 0.9) (f_activation nd))
       (float_mul (Finite 0.1) (float_tanh (float_incoming_loop net node_id)))"

definition float_new_activations_body ::
  "FloatNetwork \<Rightarrow> string \<Rightarrow> (string, pyfloat) dict \<Rightarrow> py_error + (string, pyfloat) dict" where
  "float_new_activations_body net node_id new_activations =
     (case dict_get (f_nodes net) node_id of
        Inl e \<Rightarrow> Inl e
      | Inr nd \<Rightarrow> Inr (dict_set new_activations node_id (float_new_activation net node_id nd)))"

definition float_write_back_body ::
  "string \<times> pyfloat \<Rightarrow> (string, FloatNode) dict \<Rightarrow> py_error + (string, FloatNode) dict" where
  "float_write_back_body item ns =
     (case item of (node_id, act) \<Rightarrow>
        (case dict_get ns node_id of
           Inl e \<Rightarrow> Inl e
         | Inr nd \<Rightarrow> Inr (dict_set ns node_id (nd\<lparr>f_activation := act\<rparr>))))"

definition float_propagate_step :: "FloatNetwork \<Rightarrow> py_error + FloatNetwork" where
  "float_propagate_step net =
     (case for_each (float_new_activations_body net) (dict_keys (f_nodes net)) [] of
        Inl e \<Rightarrow> Inl e
      | Inr new_activations \<Rightarrow>
          (case for_each float_write_back_body new_activations (f_nodes net) of
             Inl e \<Rightarrow> Inl e
           | Inr ns \<Rightarrow> Inr (net\<lparr>f_nodes := ns\<rparr>)))"

fun float_propagate_loop :: "nat \<Rightarrow> FloatNetwork \<Rightarrow> py_error + FloatNetwork" where
  "float_propagate_loop 0 net = Inr net"
| "float_propagate_loop (Suc k) net =
     (case float_propagate_step net of Inl e \<Rightarrow> Inl e | Inr net' \<Rightarrow> float_propagate_loop k net')"

definition float_propagate :: "FloatNetwork \<Rightarrow> int \<Rightarrow> py_error + FloatNetwork" where
  "float_propagate net steps = float_propagate_loop (nat steps) net"

text \<open>Every node activation lies in the interval from -1 to 1; every edge weight is finite.\<close>

definition float_activations_bounded :: "FloatNetwork \<Rightarrow> bool" where
  "float_activations_bounded net = list_all (\<lambda>(node_id, nd). in_unit_interval (f_activation nd)) (f_nodes net)"

definition weights_finite :: "FloatNetwork \<Rightarrow> bool" where
  "weights_finite net = list_all (\<lambda>(key, edge). is_finite (f_weight edge)) (f_edges net)"

text \<open>
  The entry of \<open>new_activations\<close> and the node after the step, for one item of the nodes
  before the step.
\<close>

definition float_new_item :: "FloatNetwork \<Rightarrow> string \<times> FloatNode \<Rightarrow> string \<times> pyfloat" where
  "float_new_item net kv = (fst kv, float_new_activation net (fst kv) (snd kv))"

definition float_new_node :: "FloatNetwork \<Rightarrow> string \<times> FloatNode \<Rightarrow> string \<times> FloatNode" where
  "float_new_node net kv = (fst kv, (snd kv)\<lparr>f_activation := float_new_activation net (fst kv) (snd kv)\<rparr>)"

section \<open>Example states\<close>

text \<open>One node with an edge from the node to itself.\<close>

definition self_loop_network :: CognitiveNetwork where
  "self_loop_network = add_edge (add_node empty_network ''a'' 0) ''a'' ''a'' 0.5 0.5"

text \<open>An engine whose log holds one strong event followed by 99 events of strength 1/2.\<close>

definition busy_engine :: CausalityEngine where
  "busy_engine =
     \<lparr>events = (''x'', ''y'', 50) # replicate 99 (''a'', ''b'', 1 / 2), current_density = 1\<rparr>"

text \<open>An engine whose log has two events out of \<open>a\<close>, a cycle, and a node without outgoing events.\<close>

definition chain_engine :: CausalityEngine where
  "chain_engine =
     \<lparr>events = [(''a'', ''b'', 1), (''b'', ''c'', 1), (''a'', ''d'', 1), (''d'', ''a'', 1)],
      current_density = 1\<rparr>"

text \<open>A memory with one strong trace and one trace just above the purge level.\<close>

definition fading_memory :: MemoryModule where
  "fading_memory =
     \<lparr>persistence = 0.05, memories = [(''x'', 1), (''y'', 0.0105)], proto_language = []\<rparr>"

text \<open>
  Two nodes, an edge between them, and an edge into the second node whose source is not a
  node.
\<close>

definition relay_network :: CognitiveNetwork where
  "relay_network =
     add_edge (add_edge (add_node (add_node empty_network ''a'' 1) ''b'' 0) ''a'' ''b'' 0.5 0.5)
       ''ghost'' ''b'' 0.7 0.5"

text \<open>One node at the default activation 0.0 with an edge to itself of weight \<open>inf\<close>.\<close>

definition inf_loop_network :: FloatNetwork where
  "inf_loop_network =
     float_add_edge (float_add_node float_empty_network ''a'' (Finite 0)) ''a'' ''a'' PosInf (Finite 0.5)"

text \<open>The relay network with float values.\<close>

definition float_relay_network :: FloatNetwork where
  "float_relay_network =
     float_add_edge
       (float_add_edge
          (float_add_node (float_add_node float_empty_network ''a'' (Finite 1)) ''b'' (Finite 0))
          ''a'' ''b'' (Finite 0.5) (Finite 0.5))
       ''ghost'' ''b'' (Finite 0.7) (Finite 0.5)"

section \<open>Properties of dictionaries\<close>

lemma update_new: "k \<notin> fst ` set al \<Longrightarrow> AList.update k v al = al @ [(k, v)]"
  by (induction al) auto

lemma dict_get_Some: "map_of d k = Some v \<Longrightarrow> dict_get d k = Inr v"
  by (simp add: dict_get_def)

lemma map_of_middle:
  "k \<notin> fst ` set xs \<Longrightarrow> map_of (xs @ (k, w) # ys) k = Some w"
  by (induction xs) auto

lemma update_middle:
  "k \<notin> fst ` set xs \<Longrightarrow> AList.update k v (xs @ (k, w) # ys) = xs @ (k, v) # ys"
  by (induction xs) auto

section \<open>Properties of the synthesis engine\<close>

lemma predict_capacity_general:
  "capacity (fst (predict self p)) =
     cs_S (fst (predict self p)) * cs_D (fst (predict self p)) * cs_M (fst (predict self p))"
  by (simp add: predict_def Let_def compute_capacity_def)

lemma predict_phi_general:
  "phi (fst (predict self p)) = (if capacity (fst (predict self p)) \<ge> threshold (fst (predict self p)) then 1 else 0)"
  by (simp add: predict_def Let_def)

lemma predict_threshold_general:
  "\<exists>c. universality_class (fst (predict self p)) = class_value c \<and>
       threshold (fst (predict self p)) = CLASS_THRESHOLDS c"
  by (auto simp add: predict_def Let_def)

text \<open>
  C1.  For all \<open>s\<close>, \<open>d\<close>, \<open>m\<close>, the record returned by \<open>predict\<close> on these values
  carries them as its S, D and M, has capacity \<open>s * d * m\<close>, has \<open>phi\<close> equal to 1 exactly
  when the capacity reaches the threshold (and 0 otherwise), and its threshold is the table
  value of its universality class: 0.003 for grammar\_structural, 0.005 for
  fast\_propagation, 0.007 for slow\_memory, 0.010 for dense\_dynamical.
\<close>

theorem predict_record:
  fixes s d m :: real
  shows "cs_S (predict_SDM self s d m) = s
       \<and> cs_D (predict_SDM self s d m) = d
       \<and> cs_M (predict_SDM self s d m) = m
       \<and> capacity (predict_SDM self s d m) = s * d * m
       \<and> (phi (predict_SDM self s d m) = 1
            \<longleftrightarrow> capacity (predict_SDM self s d m) \<ge> threshold (predict_SDM self s d m))
       \<and> (phi (predict_SDM self s d m) = 0
            \<longleftrightarrow> capacity (predict_SDM self s d m) < threshold (predict_SDM self s d m))
       \<and> ((universality_class (predict_SDM self s d m) = ''grammar_structural''
              \<and> threshold (predict_SDM self s d m) = 0.003)
          \<or> (universality_class (predict_SDM self s d m) = ''fast_propagation''
              \<and> threshold (predict_SDM self s d m) = 0.005)
          \<or> (universality_class (predict_SDM self s d m) = ''slow_memory''
              \<and> threshold (predict_SDM self s d m) = 0.007)
          \<or> (universality_class (predict_SDM self s d m) = ''dense_dynamical''
              \<and> threshold (predict_SDM self s d m) = 0.010))"
proof -
  define st where "st = predict_SDM self s d m"
  have sdm: "cs_S st = s" "cs_D st = d" "cs_M st = m"
    by (simp_all add: st_def predict_SDM_def predict_def params_SDM_def params_get_def Let_def)
  have cap: "capacity st = s * d * m"
    by (simp add: st_def predict_SDM_def predict_def params_SDM_def params_get_def Let_def
          compute_capacity_def)
  have ph: "phi st = (if capacity st \<ge> threshold st then 1 else 0)"
    unfolding st_def predict_SDM_def by (rule predict_phi_general)
  obtain c where c: "universality_class st = class_value c" "threshold st = CLASS_THRESHOLDS c"
    unfolding st_def predict_SDM_def using predict_threshold_general by blast
  have tab: "(universality_class st = ''grammar_structural'' \<and> threshold st = 0.003)
          \<or> (universality_class st = ''fast_propagation'' \<and> threshold st = 0.005)
          \<or> (universality_class st = ''slow_memory'' \<and> threshold st = 0.007)
          \<or> (universality_class st = ''dense_dynamical'' \<and> threshold st = 0.010)"
    using c by (cases c) simp_all
  from sdm cap ph tab show ?thesis unfolding st_def by simp
qed

theorem predict_record_witness:
  "capacity (predict_SDM \<lparr>predictions = []\<rparr> 0.5 0.3 0.025) = 0.00375
   \<and> phi (predict_SDM \<lparr>predictions = []\<rparr> 0.5 0.3 0.025) = 1
   \<and> universality_class (predict_SDM \<lparr>predictions = []\<rparr> 0.5 0.3 0.025) = ''grammar_structural''
   \<and> threshold (predict_SDM \<lparr>predictions = []\<rparr> 0.5 0.3 0.025) = 0.003"
  using predict_record [of "\<lparr>predictions = []\<rparr>" "0.5" "0.3" "0.025"]
  by (auto simp add: predict_SDM_def predict_def params_SDM_def params_get_def Let_def
        classify_universality_class_def)

text \<open>
  C2.  \<open>classify_universality_class\<close> returns the class of the first matching rule of the
  ordered chain, with GRAMMAR\_STRUCTURAL as the default; (0.8, 0.4, 0.03) is
  grammar\_structural and (0.2, 0.8, 0.03) is dense\_dynamical.
\<close>

theorem classify_first_match:
  fixes s d m :: real
  shows "classify_universality_class s d m =
           (if s > 0.5 \<and> d < 0.5 then GRAMMAR_STRUCTURAL
            else if s > 0.6 \<and> m < 0.05 then FAST_PROPAGATION
            else if m > 0.08 then SLOW_MEMORY
            else if s < 0.3 \<and> d > 0.5 then DENSE_DYNAMICAL
            else GRAMMAR_STRUCTURAL)
       \<and> class_value (classify_universality_class 0.8 0.4 0.03) = ''grammar_structural''
       \<and> class_value (classify_universality_class 0.2 0.8 0.03) = ''dense_dynamical''"
  by (simp add: classify_universality_class_def)

text \<open>
  C8.  \<open>get_active_laws\<close> evaluates the five law predicates independently and returns the
  names of the laws that hold, in registration order; at (0.6, 0.5, 0.1) every law holds,
  among them "Structural Differentiation" and "Causal Time".
\<close>

theorem get_active_laws_registry:
  fixes s d m :: real
  shows "get_active_laws s d m =
           (if s > 0.3 \<and> d > 0.2 then [''Structural Morality''] else [])
         @ (if s * d * m > 0.001 then [''Observation Independence''] else [])
         @ (if d > 0.15 then [''Causal Time''] else [])
         @ (if m > 0.02 then [''Memory Persistence Law''] else [])
         @ (if s > 0.4 then [''Structural Differentiation''] else [])
       \<and> get_active_laws 0.6 0.5 0.1 =
           [''Structural Morality'', ''Observation Independence'', ''Causal Time'',
            ''Memory Persistence Law'', ''Structural Differentiation'']
       \<and> ''Structural Differentiation'' \<in> set (get_active_laws 0.6 0.5 0.1)
       \<and> ''Causal Time'' \<in> set (get_active_laws 0.6 0.5 0.1)"
  by (simp add: get_active_laws_def LAWS_def)

section \<open>Properties of get\_degree\_distribution\<close>

lemma edges_loop_closed:
  "degree_edges_loop n es dg =
     (let c = length (filter (\<lambda>(src, dst). src = n \<or> dst = n) es) in
      if c = 0 then dg else AList.update n (dict_get_default dg n 0 + int c) dg)"
proof (induction es arbitrary: dg)
  case Nil
  then show ?case by (simp add: degree_edges_loop_def)
next
  case (Cons e es)
  obtain src dst where e: "e = (src, dst)" by (cases e)
  have step: "degree_edges_loop n (e # es) dg =
      degree_edges_loop n es (if src = n \<or> dst = n then defaultdict_incr dg n else dg)"
    by (simp add: degree_edges_loop_def e)
  let ?c = "length (filter (\<lambda>(src, dst). src = n \<or> dst = n) es)"
  show ?case
  proof (cases "src = n \<or> dst = n")
    case True
    let ?dg1 = "defaultdict_incr dg n"
    have dg1: "?dg1 = AList.update n (dict_get_default dg n 0 + 1) dg"
      by (simp add: defaultdict_incr_def dict_set_def)
    have g: "dict_get_default ?dg1 n 0 = dict_get_default dg n 0 + 1"
      by (simp add: dg1 dict_get_default_def update_conv')
    have cnt: "length (filter (\<lambda>(src, dst). src = n \<or> dst = n) (e # es)) = Suc ?c"
      using True by (simp add: e)
    have "degree_edges_loop n (e # es) dg = degree_edges_loop n es ?dg1"
      using True by (simp add: step)
    also have "\<dots> = (if ?c = 0 then ?dg1 else AList.update n (dict_get_default ?dg1 n 0 + int ?c) ?dg1)"
      using Cons.IH [of ?dg1] by (simp add: Let_def)
    also have "\<dots> = AList.update n (dict_get_default dg n 0 + int (Suc ?c)) dg"
      by (simp add: g) (simp add: dg1 update_last add.assoc)
    finally show ?thesis
      unfolding cnt Let_def by simp
  next
    case False
    have cnt: "length (filter (\<lambda>(src, dst). src = n \<or> dst = n) (e # es)) = ?c"
      using False by (simp add: e)
    have "degree_edges_loop n (e # es) dg = degree_edges_loop n es dg"
      using False by (simp add: step)
    then show ?thesis
      unfolding cnt using Cons.IH [of dg] by simp
  qed
qed

lemma edges_loop_fresh:
  assumes "n \<notin> fst ` set dg"
  shows "degree_edges_loop n es dg =
           dg @ (let c = int (length (filter (\<lambda>(src, dst). src = n \<or> dst = n) es)) in
                 if 0 < c then [(n, c)] else [])"
proof -
  have "map_of dg n = None" using assms by (simp add: map_of_eq_None_iff)
  then have "dict_get_default dg n 0 = (0::int)" by (simp add: dict_get_default_def)
  then show ?thesis
    using assms by (simp add: edges_loop_closed Let_def update_new)
qed

lemma nodes_loop_closed:
  assumes "distinct ns" and "set ns \<inter> fst ` set dg = {}"
  shows "degree_nodes_loop ns es dg =
           dg @ map (\<lambda>n. (n, int (length (filter (\<lambda>(src, dst). src = n \<or> dst = n) es))))
                  (filter (\<lambda>n. 0 < int (length (filter (\<lambda>(src, dst). src = n \<or> dst = n) es))) ns)"
  using assms
proof (induction ns arbitrary: dg)
  case Nil
  then show ?case by (simp add: degree_nodes_loop_def)
next
  case (Cons n ns)
  let ?c = "\<lambda>n. int (length (filter (\<lambda>(src, dst). src = n \<or> dst = n) es))"
  have fresh: "n \<notin> fst ` set dg" using Cons.prems by auto
  have step: "degree_nodes_loop (n # ns) es dg = degree_nodes_loop ns es (degree_edges_loop n es dg)"
    by (simp add: degree_nodes_loop_def)
  have inner: "degree_edges_loop n es dg = dg @ (if 0 < ?c n then [(n, ?c n)] else [])"
    using edges_loop_fresh [OF fresh] by (simp add: Let_def)
  have disj: "set ns \<inter> fst ` set (degree_edges_loop n es dg) = {}"
    using Cons.prems by (auto simp add: inner)
  have dist: "distinct ns" using Cons.prems by simp
  show ?case
    unfolding step Cons.IH [OF dist disj] by (simp add: inner)
qed

lemma self_loop_nodes: "nodes self_loop_network = [(''a'', \<lparr>activation = 0\<rparr>)]"
  by (simp add: self_loop_network_def add_edge_def add_node_def empty_network_def dict_set_def)

lemma self_loop_edges:
  "edges self_loop_network = [((''a'', ''a''), \<lparr>weight = 0.5, causal_strength = 0.5\<rparr>)]"
  by (simp add: self_loop_network_def add_edge_def add_node_def empty_network_def dict_set_def)

text \<open>
  C3, as the code has it.  \<open>get_degree_distribution\<close> returns, in node order, one integer
  for each node that is the source or the destination of at least one edge: the number of
  such edges, each edge counted once (an edge from a node to itself adds one to that node's
  count).  A node with no such edge has no entry.
\<close>

theorem degree_distribution_counts:
  assumes "wf_network net"
  shows "get_degree_distribution net =
           map (incident_count net)
             (filter (\<lambda>node_id. 0 < incident_count net node_id) (dict_keys (nodes net)))"
proof -
  have d: "distinct (dict_keys (nodes net))"
    using assms by (simp add: wf_network_def wf_dict_def)
  show ?thesis
    unfolding get_degree_distribution_def
    using nodes_loop_closed [OF d, of "[]" "dict_keys (edges net)"]
    by (simp add: dict_values_def incident_count_def comp_def)
qed

theorem degree_distribution_counts_witness:
  "wf_network self_loop_network \<and> get_degree_distribution self_loop_network = [1]"
  using degree_distribution_counts [of self_loop_network]
  by (simp add: wf_network_def wf_dict_def self_loop_nodes self_loop_edges dict_keys_def
        incident_count_def)

text \<open>
  C3, as the claim has it, fails on the network with one node and an edge from the node to
  itself: the claim counts that edge twice, the code once.
\<close>

theorem degree_distribution_self_loop_counterexample:
  "get_degree_distribution self_loop_network = [1]
   \<and> endpoint_count self_loop_network ''a'' = 2
   \<and> get_degree_distribution self_loop_network \<noteq>
       map (endpoint_count self_loop_network)
         (filter (\<lambda>node_id. 0 < endpoint_count self_loop_network node_id)
            (dict_keys (nodes self_loop_network)))"
  by (simp add: get_degree_distribution_def self_loop_nodes self_loop_edges dict_keys_def
        degree_nodes_loop_def degree_edges_loop_def defaultdict_incr_def dict_set_def
        dict_get_default_def dict_values_def endpoint_count_def)

section \<open>Properties of the causality engine\<close>

lemma fold_add_sum_list:
  fixes a :: real
  shows "fold (\<lambda>x acc. acc + f x) xs a = a + sum_list (map f xs)"
  by (induction xs arbitrary: a) (simp_all add: add.assoc)

lemma slice_last_most_recent:
  "slice_last 100 evs = most_recent (min (length evs) 100) evs"
proof -
  have "length evs - min (length evs) 100 = length evs - 100" by arith
  then show ?thesis
    by (simp add: slice_last_def most_recent_def rev_take)
qed

lemma update_density_nonempty:
  assumes "events self \<noteq> []"
  shows "current_density (update_density self) =
           min 1 (sum_list (map event_strength (most_recent (min (length (events self)) 100) (events self)))
                  / real (min (length (events self)) 100))"
proof -
  let ?recent = "slice_last 100 (events self)"
  have len: "length ?recent = min (length (events self)) 100"
    by (simp add: slice_last_def)
  have pos: "max (length ?recent) 1 = min (length (events self)) 100"
    unfolding len using assms by (cases "events self") simp_all
  have tot: "fold (\<lambda>e acc. acc + event_strength e) ?recent 0
               = sum_list (map event_strength (most_recent (min (length (events self)) 100) (events self)))"
    by (simp add: fold_add_sum_list slice_last_most_recent)
  have "current_density (update_density self) =
          min 1 (fold (\<lambda>e acc. acc + event_strength e) ?recent 0 / real (max (length ?recent) 1))"
    using assms by (simp add: update_density_def Let_def)
  then show ?thesis
    unfolding tot pos .
qed

lemma register_event_events:
  "events (register_event self src dst strength) = events self @ [(src, dst, strength)]"
  by (simp add: register_event_def update_density_def Let_def)

lemma most_recent_busy:
  "most_recent 100 (((''x'', ''y'', 50) # replicate 99 (''a'', ''b'', 1 / 2)) @ [(''a'', ''b'', 1 / 2)])
     = replicate 99 (''a'', ''b'', 1 / 2) @ [(''a'', ''b'', 1 / 2)]"
  by (simp add: most_recent_def)

lemma register_all_snoc:
  "register_all self (evs @ [(src, dst, strength)]) = register_event (register_all self evs) src dst strength"
  by (simp add: register_all_def)

lemma register_all_events: "events (register_all self evs) = events self @ evs"
proof (induction evs rule: rev_induct)
  case Nil
  then show ?case by (simp add: register_all_def)
next
  case (snoc e evs)
  obtain src dst strength where e: "e = (src, dst, strength)" by (cases e)
  show ?case by (simp add: e register_all_snoc register_event_events snoc.IH)
qed

lemma register_event_le_1: "current_density (register_event self src dst strength) \<le> 1"
  by (simp add: register_event_def update_density_def Let_def)

lemma most_recent_subset: "set (most_recent n evs) \<subseteq> set evs"
  by (auto simp add: most_recent_def dest: in_set_takeD)

lemma register_event_nonneg:
  assumes "\<forall>e \<in> set (events self). 0 \<le> event_strength e" and "0 \<le> strength"
  shows "0 \<le> current_density (register_event self src dst strength)"
proof -
  let ?evs = "events self @ [(src, dst, strength)]"
  let ?n = "min (length ?evs) 100"
  have all: "\<forall>e \<in> set ?evs. 0 \<le> event_strength e"
    using assms by (auto simp add: event_strength_def)
  have "\<forall>e \<in> set (most_recent ?n ?evs). 0 \<le> event_strength e"
    using all most_recent_subset [of ?n ?evs] by blast
  then have "0 \<le> sum_list (map event_strength (most_recent ?n ?evs))"
    by (intro sum_list_nonneg) auto
  then have "0 \<le> sum_list (map event_strength (most_recent ?n ?evs)) / real ?n"
    by simp
  then show ?thesis
    using register_event_events [of self src dst strength]
    unfolding register_event_def
    by (simp add: update_density_nonempty)
qed

text \<open>
  C5.  After \<open>register_event\<close> the log is the old log with the new event at its end, and
  \<open>current_density\<close> is \<open>min 1 (T / n)\<close>, where \<open>n\<close> is the smaller of the number of
  events and 100 and \<open>T\<close> is the sum of the strengths of the \<open>n\<close> most recent events; with
  more than 100 events only the last 100 contribute.  With no events the recomputed density
  is 0, as is the density of a new engine.
\<close>

theorem register_event_density:
  "(let evs = events (register_event self src dst strength);
        n = min (length evs) 100;
        T = sum_list (map event_strength (most_recent n evs))
    in evs = events self @ [(src, dst, strength)]
       \<and> current_density (register_event self src dst strength) = min 1 (T / real n)
       \<and> (100 < length evs \<longrightarrow>
            current_density (register_event self src dst strength) =
              min 1 (sum_list (map event_strength (most_recent 100 evs)) / 100)))
   \<and> current_density (update_density (self\<lparr>events := []\<rparr>)) = 0
   \<and> current_density new_engine = 0"
proof -
  let ?self' = "self\<lparr>events := events self @ [(src, dst, strength)]\<rparr>"
  have ne: "events ?self' \<noteq> []" by simp
  have d: "current_density (register_event self src dst strength) =
      min 1 (sum_list (map event_strength
               (most_recent (min (length (events ?self')) 100) (events ?self')))
             / real (min (length (events ?self')) 100))"
    unfolding register_event_def by (rule update_density_nonempty [OF ne])
  have z: "current_density (update_density (self\<lparr>events := []\<rparr>)) = 0"
    by (simp add: update_density_def)
  show ?thesis
    using d z by (auto simp add: Let_def register_event_events new_engine_def)
qed

theorem register_event_density_witness:
  "100 < length (events (register_event busy_engine ''a'' ''b'' (1 / 2)))
   \<and> current_density (register_event busy_engine ''a'' ''b'' (1 / 2)) = 1 / 2"
  using register_event_density [of busy_engine "''a''" "''b''" "1 / 2"] most_recent_busy
  by (simp add: Let_def register_event_events busy_engine_def event_strength_def sum_list_replicate)

text \<open>
  C10.  After any sequence of \<open>register_event\<close> calls on a new engine the density is at most
  1, whatever the strengths; when every strength is nonnegative the density is also at
  least 0.
\<close>

theorem density_in_unit_interval:
  "current_density (register_all new_engine evs) \<le> 1
   \<and> ((\<forall>e \<in> set evs. 0 \<le> event_strength e) \<longrightarrow> 0 \<le> current_density (register_all new_engine evs))"
proof (cases evs rule: rev_cases)
  case Nil
  then show ?thesis by (simp add: register_all_def new_engine_def)
next
  case (snoc evs' e)
  obtain src dst strength where e: "e = (src, dst, strength)" by (cases e)
  have r: "register_all new_engine evs = register_event (register_all new_engine evs') src dst strength"
    by (simp add: snoc e register_all_snoc)
  have ev: "events (register_all new_engine evs') = evs'"
    by (simp add: register_all_events new_engine_def)
  have up: "current_density (register_all new_engine evs) \<le> 1"
    unfolding r by (rule register_event_le_1)
  have lo: "0 \<le> current_density (register_all new_engine evs)"
    if "\<forall>e \<in> set evs. 0 \<le> event_strength e"
    unfolding r
    by (rule register_event_nonneg) (use that in \<open>auto simp add: ev snoc e event_strength_def\<close>)
  from up lo show ?thesis by blast
qed

theorem density_in_unit_interval_witness:
  "0 \<le> current_density (register_all new_engine [(''a'', ''b'', 3 / 10), (''b'', ''c'', 5)])
   \<and> current_density (register_all new_engine [(''a'', ''b'', 3 / 10), (''b'', ''c'', 5)]) \<le> 1
   \<and> current_density (register_all new_engine [(''a'', ''b'', 3 / 10), (''b'', ''c'', 5)]) = 1"
  using density_in_unit_interval [of "[(''a'', ''b'', 3 / 10), (''b'', ''c'', 5)]"]
  by (simp add: event_strength_def register_all_def register_event_def update_density_def
        new_engine_def slice_last_def Let_def)

section \<open>Properties of get\_causal\_chain\<close>

lemma Max_sorted_last:
  fixes xs :: "nat list"
  assumes "sorted xs" and "xs \<noteq> []"
  shows "Max (set xs) = last xs"
  using assms
proof (induction xs)
  case Nil
  then show ?case by simp
next
  case (Cons x xs)
  show ?case
  proof (cases "xs = []")
    case True
    then show ?thesis by simp
  next
    case False
    have "Max (set (x # xs)) = max x (Max (set xs))"
      using False by simp
    also have "\<dots> = max x (last xs)"
      using Cons False by simp
    also have "\<dots> = last xs"
      using Cons.prems False by (simp add: max_def)
    finally show ?thesis using False by simp
  qed
qed

lemma filter_by_index:
  "map ((!) xs) (filter (\<lambda>i. P (xs ! i)) [0..<length xs]) = filter P xs"
proof -
  have "filter P xs = filter P (map ((!) xs) [0..<length xs])"
    by (simp add: map_nth)
  also have "\<dots> = map ((!) xs) (filter (P \<circ> (!) xs) [0..<length xs])"
    by (rule filter_map)
  finally show ?thesis by (simp add: comp_def)
qed

lemma last_registered_dst_filter:
  "last_registered_dst evs current =
     (let next_nodes = map (\<lambda>(src, dst, _). dst) (filter (\<lambda>(src, dst, _). src = current) evs) in
      if next_nodes = [] then None else Some (last next_nodes))"
proof -
  let ?P = "\<lambda>e::event. fst e = current"
  let ?idx = "outgoing_indices evs current"
  have P: "(\<lambda>(src, dst, _). src = current) = ?P" by auto
  have dst: "(\<lambda>(src, dst, _). dst) = (\<lambda>e::event. fst (snd e))" by auto
  have m: "map ((!) evs) ?idx = filter ?P evs"
    unfolding outgoing_indices_def by (rule filter_by_index)
  have empty: "(?idx = []) = (filter ?P evs = [])"
    using m by (metis map_is_Nil_conv)
  have sorted: "sorted ?idx"
    unfolding outgoing_indices_def by (rule sorted_wrt_filter) simp
  show ?thesis
  proof (cases "?idx = []")
    case True
    then show ?thesis
      using empty by (simp add: last_registered_dst_def P Let_def)
  next
    case False
    have "evs ! Max (set ?idx) = evs ! last ?idx"
      using Max_sorted_last [OF sorted False] by simp
    also have "\<dots> = last (map ((!) evs) ?idx)"
      using False by (simp add: last_map)
    also have "\<dots> = last (filter ?P evs)"
      by (simp add: m)
    finally have "fst (snd (evs ! Max (set ?idx))) = last (map (\<lambda>e. fst (snd e)) (filter ?P evs))"
      using False empty by (simp add: last_map)
    then show ?thesis
      using False empty by (simp add: last_registered_dst_def P dst Let_def)
  qed
qed

lemma chain_loop_greedy_walk:
  "chain_loop evs k (pre @ [current]) current = pre @ greedy_walk evs k current"
proof (induction k arbitrary: pre current)
  case 0
  then show ?case by simp
next
  case (Suc k)
  let ?nn = "map (\<lambda>(src, dst, _). dst) (filter (\<lambda>(src, dst, _). src = current) evs)"
  show ?case
  proof (cases "?nn = []")
    case True
    then show ?thesis
      by (simp add: last_registered_dst_filter Let_def)
  next
    case False
    have "chain_loop evs (Suc k) (pre @ [current]) current
            = chain_loop evs k ((pre @ [current]) @ [last ?nn]) (last ?nn)"
      using False by (simp add: Let_def)
    also have "\<dots> = (pre @ [current]) @ greedy_walk evs k (last ?nn)"
      by (rule Suc.IH)
    finally show ?thesis
      using False by (simp add: last_registered_dst_filter Let_def)
  qed
qed

lemma greedy_walk_hd: "hd (greedy_walk evs k current) = current"
  by (cases k) (simp_all split: option.splits)

lemma greedy_walk_length: "length (greedy_walk evs k current) \<le> Suc k"
  by (induction k arbitrary: current) (simp_all split: option.splits)

lemma no_outgoing: "current \<notin> fst ` set evs \<Longrightarrow> last_registered_dst evs current = None"
  by (auto simp add: last_registered_dst_def outgoing_indices_def filter_empty_conv)

text \<open>
  C7.  \<open>get_causal_chain\<close> returns the greedy walk from \<open>start\<close>: for at most \<open>max_depth\<close>
  hops it moves to the destination of the last-registered event whose source is the current
  node, and stops early at a node without outgoing events.  The chain begins with
  \<open>start\<close>, has at most \<open>max_depth + 1\<close> nodes, and is \<open>[start]\<close> when no event has
  \<open>start\<close> as its source.
\<close>

theorem causal_chain_greedy_walk:
  "get_causal_chain self start max_depth = greedy_walk (events self) (nat max_depth) start
   \<and> hd (get_causal_chain self start max_depth) = start
   \<and> length (get_causal_chain self start max_depth) \<le> nat max_depth + 1
   \<and> (start \<notin> fst ` set (events self) \<longrightarrow> get_causal_chain self start max_depth = [start])"
proof -
  have eq: "get_causal_chain self start max_depth = greedy_walk (events self) (nat max_depth) start"
    unfolding get_causal_chain_def
    using chain_loop_greedy_walk [of "events self" "nat max_depth" "[]" start] by simp
  have single: "greedy_walk (events self) (nat max_depth) start = [start]"
    if "start \<notin> fst ` set (events self)"
    using no_outgoing [OF that] by (cases "nat max_depth") simp_all
  show ?thesis
    using greedy_walk_length [of "events self" "nat max_depth" start] single
    by (simp add: eq greedy_walk_hd)
qed

theorem causal_chain_greedy_walk_witness:
  "''c'' \<notin> fst ` set (events chain_engine)
   \<and> get_causal_chain chain_engine ''c'' 5 = [''c'']
   \<and> get_causal_chain chain_engine ''a'' 3 = [''a'', ''d'', ''a'', ''d'']"
  using causal_chain_greedy_walk [of chain_engine "''c''" 5]
  by (simp add: chain_engine_def get_causal_chain_def eval_nat_numeral Let_def)

section \<open>Properties of decay\<close>

lemma decay_body_middle:
  assumes "k \<notin> fst ` set xs" and f: "f = 1 - r * 0.1"
  shows "decay_body r k (xs @ (k, v) # ys, tr) =
           Inr (xs @ (k, v * f) # ys, if v * f < 0.01 then tr @ [k] else tr)"
proof -
  have rd: "dict_get (xs @ (k, v) # ys) k = Inr v"
    by (rule dict_get_Some) (rule map_of_middle [OF assms(1)])
  have wr: "dict_set (xs @ (k, v) # ys) k (v * f) = xs @ (k, v * f) # ys"
    unfolding dict_set_def by (rule update_middle [OF assms(1)])
  have rd': "dict_get (xs @ (k, v * f) # ys) k = Inr (v * f)"
    by (rule dict_get_Some) (rule map_of_middle [OF assms(1)])
  have "decay_body r k (xs @ (k, v) # ys, tr) =
          (case dict_get (xs @ (k, v) # ys) k of
             Inl e \<Rightarrow> Inl e
           | Inr w \<Rightarrow>
               (let mem' = dict_set (xs @ (k, v) # ys) k (w * f) in
                (case dict_get mem' k of
                   Inl e \<Rightarrow> Inl e
                 | Inr v' \<Rightarrow>
                     if v' < 0.01 then Inr (mem', tr @ [k]) else Inr (mem', tr))))"
    unfolding decay_body_def f by simp
  also have "\<dots> = Inr (xs @ (k, v * f) # ys, if v * f < 0.01 then tr @ [k] else tr)"
    unfolding rd by (simp add: wr rd' Let_def del: map_of_append)
  finally show ?thesis .
qed

lemma decay_first_loop:
  assumes "distinct (map fst (done @ todo))" and f: "f = 1 - r * 0.1"
  shows "for_each (decay_body r) (map fst todo) (map (scale_entry f) done @ todo, tr) =
           Inr (map (scale_entry f) (done @ todo),
                tr @ map fst (filter (\<lambda>kv. snd kv < 0.01) (map (scale_entry f) todo)))"
  using assms(1)
proof (induction todo arbitrary: "done" tr)
  case Nil
  then show ?case by simp
next
  case (Cons kv todo)
  obtain k v where kv: "kv = (k, v)" by (cases kv)
  let ?tr = "if v * f < 0.01 then tr @ [k] else tr"
  have fresh: "k \<notin> fst ` set (map (scale_entry f) done)"
    using Cons.prems by (force simp add: kv scale_entry_def)
  have body: "decay_body r k (map (scale_entry f) done @ (k, v) # todo, tr) =
                Inr (map (scale_entry f) done @ (k, v * f) # todo, ?tr)"
    by (rule decay_body_middle [OF fresh f])
  have shift: "map (scale_entry f) done @ (k, v * f) # todo = map (scale_entry f) (done @ [(k, v)]) @ todo"
    by (simp add: scale_entry_def)
  have dist: "distinct (map fst ((done @ [(k, v)]) @ todo))"
    using Cons.prems by (simp add: kv)
  have "for_each (decay_body r) (map fst (kv # todo)) (map (scale_entry f) done @ kv # todo, tr)
          = for_each (decay_body r) (map fst todo) (map (scale_entry f) (done @ [(k, v)]) @ todo, ?tr)"
    unfolding kv shift [symmetric] by (simp add: body)
  also have "\<dots> = Inr (map (scale_entry f) ((done @ [(k, v)]) @ todo),
                ?tr @ map fst (filter (\<lambda>kv. snd kv < 0.01) (map (scale_entry f) todo)))"
    by (rule Cons.IH [OF dist])
  finally have run:
    "for_each (decay_body r) (map fst (kv # todo)) (map (scale_entry f) done @ kv # todo, tr)
       = Inr (map (scale_entry f) ((done @ [(k, v)]) @ todo),
              ?tr @ map fst (filter (\<lambda>kv. snd kv < 0.01) (map (scale_entry f) todo)))" .
  have mem: "map (scale_entry f) ((done @ [(k, v)]) @ todo) = map (scale_entry f) (done @ kv # todo)"
    by (simp add: kv)
  have rem: "?tr @ map fst (filter (\<lambda>kv. snd kv < 0.01) (map (scale_entry f) todo))
               = tr @ map fst (filter (\<lambda>kv. snd kv < 0.01) (map (scale_entry f) (kv # todo)))"
    by (simp add: kv scale_entry_def)
  show ?case
    unfolding run mem rem by (rule refl)
qed

lemma decay_second_loop:
  assumes "distinct ks" and "set ks \<subseteq> fst ` set mem"
  shows "for_each (\<lambda>key m. dict_del m key) ks mem = Inr (filter (\<lambda>kv. fst kv \<notin> set ks) mem)"
  using assms
proof (induction ks arbitrary: mem)
  case Nil
  then show ?case by simp
next
  case (Cons k ks)
  have del: "dict_del mem k = Inr (filter (\<lambda>kv. fst kv \<noteq> k) mem)"
    using Cons.prems by (auto simp add: dict_del_def dict_keys_def AList.delete_eq case_prod_beta intro: filter_cong)
  have sub: "set ks \<subseteq> fst ` set (filter (\<lambda>kv. fst kv \<noteq> k) mem)"
  proof
    fix x assume x: "x \<in> set ks"
    then have "x \<noteq> k" using Cons.prems by auto
    moreover obtain kv where "kv \<in> set mem" "fst kv = x" using x Cons.prems by auto
    ultimately show "x \<in> fst ` set (filter (\<lambda>kv. fst kv \<noteq> k) mem)" by force
  qed
  have dist: "distinct ks" using Cons.prems by simp
  show ?case
    by (simp add: del Cons.IH [OF dist sub] conj_commute)
qed

lemma purge_by_key:
  assumes "distinct (map fst xs)"
  shows "filter (\<lambda>kv. fst kv \<notin> set (map fst (filter Q xs))) xs = filter (\<lambda>kv. \<not> Q kv) xs"
proof (rule filter_cong [OF refl])
  fix kv assume in_xs: "kv \<in> set xs"
  have "fst kv \<in> set (map fst (filter Q xs)) \<longleftrightarrow> Q kv"
  proof
    assume "fst kv \<in> set (map fst (filter Q xs))"
    then obtain kv' where kv': "kv' \<in> set xs" "Q kv'" "fst kv' = fst kv" by auto
    have "kv' = kv"
      using assms in_xs kv' by (metis eq_key_imp_eq_value prod.collapse)
    then show "Q kv" using kv' by simp
  next
    assume "Q kv"
    then show "fst kv \<in> set (map fst (filter Q xs))" using in_xs by auto
  qed
  then show "(fst kv \<notin> set (map fst (filter Q xs))) = (\<not> Q kv)" by simp
qed

lemma decay_closed:
  assumes "wf_dict (memories self)"
  shows "decay self =
           Inr (self\<lparr>memories :=
                  filter (\<lambda>kv. \<not> snd kv < 0.01) (map (scale_entry (decay_factor self)) (memories self))\<rparr>)"
proof -
  let ?f = "decay_factor self"
  let ?scaled = "map (scale_entry ?f) (memories self)"
  let ?tr = "map fst (filter (\<lambda>kv. snd kv < 0.01) ?scaled)"
  have d: "distinct (map fst (memories self))"
    using assms by (simp add: wf_dict_def dict_keys_def)
  have keys: "map fst ?scaled = map fst (memories self)"
    by (simp add: scale_entry_def comp_def)
  have first: "for_each (decay_body (1 - persistence self)) (dict_keys (memories self)) (memories self, [])
                 = Inr (?scaled, ?tr)"
    using decay_first_loop [of "[]" "memories self" ?f "1 - persistence self" "[]"] d
    by (simp add: dict_keys_def decay_factor_def)
  have dsc: "distinct (map fst ?scaled)"
    unfolding keys by (rule d)
  have dtr: "distinct ?tr"
    using dsc by (rule distinct_map_filter)
  have sub: "set ?tr \<subseteq> fst ` set ?scaled" by auto
  have second: "for_each (\<lambda>key m. dict_del m key) ?tr ?scaled = Inr (filter (\<lambda>kv. fst kv \<notin> set ?tr) ?scaled)"
    by (rule decay_second_loop [OF dtr sub])
  have purge: "filter (\<lambda>kv. fst kv \<notin> set ?tr) ?scaled = filter (\<lambda>kv. \<not> snd kv < 0.01) ?scaled"
    by (rule purge_by_key) (rule dsc)
  show ?thesis
    unfolding decay_def Let_def first
    by (simp only: sum.case prod.case second purge)
qed

text \<open>
  C6.  One call of \<open>decay\<close> succeeds, multiplies every stored strength by
  \<open>1 - (1 - persistence) * 0.1\<close> and then drops every key whose new strength is below 0.01,
  so that no entry of the resulting map is below 0.01; persistence and proto-language are
  unchanged.  On an empty map \<open>decay\<close> returns the module as it is.
\<close>

theorem decay_purges:
  assumes "wf_dict (memories self)"
  shows "(\<exists>self'. decay self = Inr self'
            \<and> memories self' =
                filter (\<lambda>(key, strength). \<not> strength < 0.01)
                  (map (\<lambda>(key, strength). (key, strength * (1 - (1 - persistence self) * 0.1)))
                     (memories self))
            \<and> list_all (\<lambda>(key, strength). \<not> strength < 0.01) (memories self')
            \<and> persistence self' = persistence self
            \<and> proto_language self' = proto_language self)
       \<and> decay (self\<lparr>memories := []\<rparr>) = Inr (self\<lparr>memories := []\<rparr>)"
proof -
  let ?kept = "filter (\<lambda>kv. \<not> snd kv < 0.01) (map (scale_entry (decay_factor self)) (memories self))"
  have sc: "scale_entry (decay_factor self) = (\<lambda>(key, strength). (key, strength * (1 - (1 - persistence self) * 0.1)))"
    by (auto simp add: scale_entry_def decay_factor_def)
  have p: "(\<lambda>kv::string \<times> real. \<not> snd kv < 0.01) = (\<lambda>(key, strength). \<not> strength < 0.01)"
    by auto
  have run: "decay self = Inr (self\<lparr>memories := ?kept\<rparr>)"
    by (rule decay_closed [OF assms])
  have all: "list_all (\<lambda>kv. \<not> snd kv < 0.01) ?kept"
    unfolding list_all_iff by simp
  have empty: "decay (self\<lparr>memories := []\<rparr>) = Inr (self\<lparr>memories := []\<rparr>)"
    by (simp add: decay_def dict_keys_def)
  show ?thesis
    using run all empty unfolding sc p by simp
qed

theorem decay_purges_witness:
  "wf_dict (memories fading_memory)
   \<and> decay fading_memory = Inr (fading_memory\<lparr>memories := [(''x'', 0.905)]\<rparr>)"
  using decay_purges [of fading_memory]
  by (auto simp add: fading_memory_def wf_dict_def dict_keys_def)

section \<open>Properties of propagate\<close>

lemma incoming_fold_sum:
  "fold (\<lambda>((src, dst), edge) incoming.
             if dst = k then
               (case map_of ns src of
                  Some nd \<Rightarrow> incoming + activation nd * weight edge
                | None \<Rightarrow> incoming)
             else incoming) es a
   = a + sum_list
       (map (\<lambda>((src, dst), edge). activation (the (map_of ns src)) * weight edge)
          (filter (\<lambda>((src, dst), edge). dst = k \<and> src \<in> set (dict_keys ns)) es))"
proof (induction es arbitrary: a)
  case Nil
  then show ?case by simp
next
  case (Cons e es)
  obtain src dst edge where e: "e = ((src, dst), edge)" by (cases e) auto
  have mem: "src \<in> set (dict_keys ns) \<longleftrightarrow> map_of ns src \<noteq> None"
    by (simp add: dict_keys_def map_of_eq_None_iff)
  show ?case
    by (cases "map_of ns src") (simp_all add: e Cons.IH mem add.assoc)
qed

lemma incoming_loop_sum: "incoming_loop net k = incoming_sum net k"
  unfolding incoming_loop_def incoming_sum_def
  by (simp add: incoming_fold_sum)

lemma new_node_keys: "map fst (map (new_node net) xs) = map fst xs"
  by (simp add: new_node_def comp_def)

lemma new_item_key_set: "fst ` set (map (new_item net) xs) = fst ` set xs"
  by (induction xs) (simp_all add: new_item_def)

lemma new_node_key_set: "fst ` set (map (new_node net) xs) = fst ` set xs"
  by (induction xs) (simp_all add: new_node_def)

lemma new_activations_loop:
  assumes "nodes net = done @ todo" and "distinct (map fst (nodes net))"
  shows "for_each (new_activations_body net) (map fst todo) (map (new_item net) done)
           = Inr (map (new_item net) (done @ todo))"
  using assms
proof (induction todo arbitrary: "done")
  case Nil
  then show ?case by simp
next
  case (Cons kv todo)
  obtain k nd where kv: "kv = (k, nd)" by (cases kv)
  have split: "nodes net = done @ (k, nd) # todo"
    using Cons.prems by (simp add: kv)
  have fresh: "k \<notin> fst ` set done"
    using Cons.prems(2) unfolding split by force
  have fresh': "k \<notin> fst ` set (map (new_item net) done)"
    unfolding new_item_key_set by (rule fresh)
  have rd: "dict_get (nodes net) k = Inr nd"
    unfolding split by (rule dict_get_Some) (rule map_of_middle [OF fresh])
  have body: "new_activations_body net k (map (new_item net) done)
                = Inr (map (new_item net) (done @ [(k, nd)]))"
    unfolding new_activations_body_def rd dict_set_def update_new [OF fresh']
    by (simp add: new_item_def incoming_loop_sum)
  have split': "nodes net = (done @ [(k, nd)]) @ todo"
    using split by simp
  have "for_each (new_activations_body net) (map fst (kv # todo)) (map (new_item net) done)
          = for_each (new_activations_body net) (map fst todo) (map (new_item net) (done @ [(k, nd)]))"
    unfolding kv by (simp add: body del: map_append)
  also have "\<dots> = Inr (map (new_item net) ((done @ [(k, nd)]) @ todo))"
    by (rule Cons.IH [OF split' Cons.prems(2)])
  finally show ?case by (simp add: kv)
qed

lemma write_back_loop:
  assumes "distinct (map fst (done @ todo))"
  shows "for_each write_back_body (map (new_item net) todo) (map (new_node net) done @ todo)
           = Inr (map (new_node net) (done @ todo))"
  using assms
proof (induction todo arbitrary: "done")
  case Nil
  then show ?case by simp
next
  case (Cons kv todo)
  obtain k nd where kv: "kv = (k, nd)" by (cases kv)
  obtain a where item: "new_item net (k, nd) = (k, a)"
    and node: "new_node net (k, nd) = (k, nd\<lparr>activation := a\<rparr>)"
    by (simp add: new_item_def new_node_def)
  have fresh: "k \<notin> fst ` set (map (new_node net) done)"
    unfolding new_node_key_set using Cons.prems by (force simp add: kv)
  have rd: "dict_get (map (new_node net) done @ (k, nd) # todo) k = Inr nd"
    by (rule dict_get_Some) (rule map_of_middle [OF fresh])
  have body: "write_back_body (k, a) (map (new_node net) done @ (k, nd) # todo)
                = Inr (map (new_node net) (done @ [(k, nd)]) @ todo)"
    unfolding write_back_body_def prod.case rd dict_set_def update_middle [OF fresh]
    by (simp add: node)
  have dist: "distinct (map fst ((done @ [(k, nd)]) @ todo))"
    using Cons.prems by (simp add: kv)
  have "for_each write_back_body (map (new_item net) (kv # todo)) (map (new_node net) done @ kv # todo)
          = for_each write_back_body (map (new_item net) todo) (map (new_node net) (done @ [(k, nd)]) @ todo)"
    unfolding kv by (simp add: item body del: map_append)
  also have "\<dots> = Inr (map (new_node net) ((done @ [(k, nd)]) @ todo))"
    by (rule Cons.IH [OF dist])
  finally show ?case by (simp add: kv)
qed

lemma simultaneous_update_new_node:
  "simultaneous_update net = net\<lparr>nodes := map (new_node net) (nodes net)\<rparr>"
proof -
  have "new_node net = (\<lambda>(node_id, nd).
          (node_id, nd\<lparr>activation := 0.9 * activation nd + 0.1 * tanh (incoming_sum net node_id)\<rparr>))"
    by (auto simp add: new_node_def)
  then show ?thesis by (simp add: simultaneous_update_def)
qed

lemma propagate_step_closed:
  assumes "wf_dict (nodes net)"
  shows "propagate_step net = Inr (simultaneous_update net)"
proof -
  have d: "distinct (map fst (nodes net))"
    using assms by (simp add: wf_dict_def dict_keys_def)
  have first: "for_each (new_activations_body net) (dict_keys (nodes net)) []
                 = Inr (map (new_item net) (nodes net))"
    using new_activations_loop [of net "[]" "nodes net"] d by (simp add: dict_keys_def)
  have second: "for_each write_back_body (map (new_item net) (nodes net)) (nodes net)
                  = Inr (map (new_node net) (nodes net))"
    using write_back_loop [of "[]" "nodes net" net] d by simp
  show ?thesis
    unfolding propagate_step_def first sum.case second simultaneous_update_new_node
    by (rule refl)
qed

lemma simultaneous_update_edges: "edges (simultaneous_update net) = edges net"
  by (simp add: simultaneous_update_def)

lemma simultaneous_update_keys:
  "dict_keys (nodes (simultaneous_update net)) = dict_keys (nodes net)"
  by (simp add: simultaneous_update_new_node dict_keys_def new_node_def)

lemma simultaneous_update_wf: "wf_dict (nodes net) \<Longrightarrow> wf_dict (nodes (simultaneous_update net))"
  by (simp add: wf_dict_def simultaneous_update_keys)

lemma funpow_update_edges: "edges ((simultaneous_update ^^ k) net) = edges net"
  by (induction k) (simp_all add: simultaneous_update_edges)

lemma propagate_loop_closed:
  assumes "wf_dict (nodes net)"
  shows "propagate_loop k net = Inr ((simultaneous_update ^^ k) net)"
  using assms
proof (induction k arbitrary: net)
  case 0
  then show ?case by simp
next
  case (Suc k)
  have "propagate_loop (Suc k) net = propagate_loop k (simultaneous_update net)"
    by (simp add: propagate_step_closed [OF Suc.prems])
  also have "\<dots> = Inr ((simultaneous_update ^^ k) (simultaneous_update net))"
    by (rule Suc.IH) (rule simultaneous_update_wf [OF Suc.prems])
  finally show ?case by (simp add: funpow_swap1)
qed

lemma simultaneous_update_lookup:
  assumes "wf_dict (nodes net)" and "(k, nd) \<in> set (nodes net)"
  shows "map_of (nodes (simultaneous_update net)) k
           = Some (nd\<lparr>activation := 0.9 * activation nd + 0.1 * tanh (incoming_sum net k)\<rparr>)"
proof -
  have d: "distinct (map fst (map (new_node net) (nodes net)))"
    unfolding new_node_keys using assms(1) by (simp add: wf_dict_def dict_keys_def)
  have "new_node net (k, nd) \<in> set (map (new_node net) (nodes net))"
    using assms(2) by simp
  then have "(k, nd\<lparr>activation := 0.9 * activation nd + 0.1 * tanh (incoming_sum net k)\<rparr>)
               \<in> set (nodes (simultaneous_update net))"
    by (simp add: simultaneous_update_new_node new_node_def)
  then show ?thesis
    using d by (simp add: simultaneous_update_new_node map_of_is_SomeI del: map_map)
qed

lemma relay_nodes: "nodes relay_network = [(''a'', \<lparr>activation = 1\<rparr>), (''b'', \<lparr>activation = 0\<rparr>)]"
  by (simp add: relay_network_def add_edge_def add_node_def empty_network_def dict_set_def)

lemma relay_edges:
  "edges relay_network =
     [((''a'', ''b''), \<lparr>weight = 0.5, causal_strength = 0.5\<rparr>),
      ((''ghost'', ''b''), \<lparr>weight = 0.7, causal_strength = 0.5\<rparr>)]"
  by (simp add: relay_network_def add_edge_def add_node_def empty_network_def dict_set_def)

lemma relay_wf: "wf_network relay_network"
  by (simp add: wf_network_def wf_dict_def dict_keys_def relay_nodes relay_edges)

text \<open>
  C4.  On a network whose node and edge maps are dictionaries, one step of \<open>propagate\<close>
  succeeds and is the simultaneous update: every node keeps its place and gets the
  activation \<open>0.9 * current + 0.1 * tanh incoming\<close>, where \<open>incoming\<close> is the sum of
  \<open>source_activation * edge_weight\<close> over the edges into the node whose source is a node,
  all read from the network before the step.  \<open>propagate\<close> with \<open>steps\<close> repeats the step
  and leaves the edges as they were.
\<close>

theorem propagate_simultaneous:
  assumes "wf_network net"
  shows "propagate_step net = Inr (simultaneous_update net)
       \<and> propagate net steps = Inr ((simultaneous_update ^^ nat steps) net)
       \<and> edges ((simultaneous_update ^^ nat steps) net) = edges net
       \<and> dict_keys (nodes (simultaneous_update net)) = dict_keys (nodes net)
       \<and> (\<forall>(node_id, nd) \<in> set (nodes net).
            map_of (nodes (simultaneous_update net)) node_id =
              Some (nd\<lparr>activation := 0.9 * activation nd + 0.1 * tanh (incoming_sum net node_id)\<rparr>))"
proof -
  have wf: "wf_dict (nodes net)"
    using assms by (simp add: wf_network_def)
  have step: "propagate_step net = Inr (simultaneous_update net)"
    by (rule propagate_step_closed [OF wf])
  have run: "propagate net steps = Inr ((simultaneous_update ^^ nat steps) net)"
    unfolding propagate_def by (rule propagate_loop_closed [OF wf])
  have look: "\<forall>(node_id, nd) \<in> set (nodes net).
            map_of (nodes (simultaneous_update net)) node_id =
              Some (nd\<lparr>activation := 0.9 * activation nd + 0.1 * tanh (incoming_sum net node_id)\<rparr>)"
    using simultaneous_update_lookup [OF wf] by blast
  show ?thesis
    using step run look funpow_update_edges simultaneous_update_keys by blast
qed

theorem propagate_simultaneous_witness:
  "wf_network relay_network
   \<and> propagate relay_network 1 =
       Inr (relay_network\<lparr>nodes := [(''a'', \<lparr>activation = 0.9\<rparr>), (''b'', \<lparr>activation = tanh (1 / 2) / 10\<rparr>)]\<rparr>)"
  using propagate_simultaneous [of relay_network 1] relay_wf
  by (simp add: simultaneous_update_def incoming_sum_def relay_nodes relay_edges dict_keys_def)

section \<open>Properties of propagate over floats\<close>

lemma float_new_item_key_set: "fst ` set (map (float_new_item net) xs) = fst ` set xs"
  by (induction xs) (simp_all add: float_new_item_def)

lemma float_new_node_key_set: "fst ` set (map (float_new_node net) xs) = fst ` set xs"
  by (induction xs) (simp_all add: float_new_node_def)

lemma float_new_activations_loop:
  assumes "f_nodes net = done @ todo" and "distinct (map fst (f_nodes net))"
  shows "for_each (float_new_activations_body net) (map fst todo) (map (float_new_item net) done)
           = Inr (map (float_new_item net) (done @ todo))"
  using assms
proof (induction todo arbitrary: "done")
  case Nil
  then show ?case by simp
next
  case (Cons kv todo)
  obtain k nd where kv: "kv = (k, nd)" by (cases kv)
  have split: "f_nodes net = done @ (k, nd) # todo"
    using Cons.prems by (simp add: kv)
  have fresh: "k \<notin> fst ` set done"
    using Cons.prems(2) unfolding split by force
  have fresh': "k \<notin> fst ` set (map (float_new_item net) done)"
    unfolding float_new_item_key_set by (rule fresh)
  have rd: "dict_get (f_nodes net) k = Inr nd"
    unfolding split by (rule dict_get_Some) (rule map_of_middle [OF fresh])
  have body: "float_new_activations_body net k (map (float_new_item net) done)
                = Inr (map (float_new_item net) (done @ [(k, nd)]))"
    unfolding float_new_activations_body_def rd dict_set_def update_new [OF fresh']
    by (simp add: float_new_item_def)
  have split': "f_nodes net = (done @ [(k, nd)]) @ todo"
    using split by simp
  have "for_each (float_new_activations_body net) (map fst (kv # todo)) (map (float_new_item net) done)
          = for_each (float_new_activations_body net) (map fst todo)
              (map (float_new_item net) (done @ [(k, nd)]))"
    unfolding kv by (simp add: body del: map_append)
  also have "\<dots> = Inr (map (float_new_item net) ((done @ [(k, nd)]) @ todo))"
    by (rule Cons.IH [OF split' Cons.prems(2)])
  finally show ?case by (simp add: kv)
qed

lemma float_write_back_loop:
  assumes "distinct (map fst (done @ todo))"
  shows "for_each float_write_back_body (map (float_new_item net) todo)
           (map (float_new_node net) done @ todo)
           = Inr (map (float_new_node net) (done @ todo))"
  using assms
proof (induction todo arbitrary: "done")
  case Nil
  then show ?case by simp
next
  case (Cons kv todo)
  obtain k nd where kv: "kv = (k, nd)" by (cases kv)
  obtain a where item: "float_new_item net (k, nd) = (k, a)"
    and node: "float_new_node net (k, nd) = (k, nd\<lparr>f_activation := a\<rparr>)"
    by (simp add: float_new_item_def float_new_node_def)
  have fresh: "k \<notin> fst ` set (map (float_new_node net) done)"
    unfolding float_new_node_key_set using Cons.prems by (force simp add: kv)
  have rd: "dict_get (map (float_new_node net) done @ (k, nd) # todo) k = Inr nd"
    by (rule dict_get_Some) (rule map_of_middle [OF fresh])
  have body: "float_write_back_body (k, a) (map (float_new_node net) done @ (k, nd) # todo)
                = Inr (map (float_new_node net) (done @ [(k, nd)]) @ todo)"
    unfolding float_write_back_body_def prod.case rd dict_set_def update_middle [OF fresh]
    by (simp add: node)
  have dist: "distinct (map fst ((done @ [(k, nd)]) @ todo))"
    using Cons.prems by (simp add: kv)
  have "for_each float_write_back_body (map (float_new_item net) (kv # todo))
          (map (float_new_node net) done @ kv # todo)
          = for_each float_write_back_body (map (float_new_item net) todo)
              (map (float_new_node net) (done @ [(k, nd)]) @ todo)"
    unfolding kv by (simp add: item body del: map_append)
  also have "\<dots> = Inr (map (float_new_node net) ((done @ [(k, nd)]) @ todo))"
    by (rule Cons.IH [OF dist])
  finally show ?case by (simp add: kv)
qed

lemma float_propagate_step_closed:
  assumes "wf_dict (f_nodes net)"
  shows "float_propagate_step net = Inr (net\<lparr>f_nodes := map (float_new_node net) (f_nodes net)\<rparr>)"
proof -
  have d: "distinct (map fst (f_nodes net))"
    using assms by (simp add: wf_dict_def dict_keys_def)
  have first: "for_each (float_new_activations_body net) (dict_keys (f_nodes net)) []
                 = Inr (map (float_new_item net) (f_nodes net))"
    using float_new_activations_loop [of net "[]" "f_nodes net"] d by (simp add: dict_keys_def)
  have second: "for_each float_write_back_body (map (float_new_item net) (f_nodes net)) (f_nodes net)
                  = Inr (map (float_new_node net) (f_nodes net))"
    using float_write_back_loop [of "[]" "f_nodes net" net] d by simp
  show ?thesis
    unfolding float_propagate_step_def first sum.case second
    by (rule refl)
qed

lemma float_add_finite: "is_finite a \<Longrightarrow> is_finite b \<Longrightarrow> is_finite (float_add a b)"
  by (cases a; cases b) simp_all

lemma float_mul_finite: "is_finite a \<Longrightarrow> is_finite b \<Longrightarrow> is_finite (float_mul a b)"
  by (cases a; cases b) simp_all

lemma in_unit_interval_finite: "in_unit_interval a \<Longrightarrow> is_finite a"
  by (cases a) simp_all

lemma float_incoming_fold_finite:
  assumes "\<forall>(src, nd) \<in> set ns. is_finite (f_activation nd)"
    and "\<forall>(key, edge) \<in> set es. is_finite (f_weight edge)"
    and "is_finite acc"
  shows "is_finite
           (fold (\<lambda>((src, dst), edge) incoming.
                    if dst = node_id then
                      (case map_of ns src of
                         Some nd \<Rightarrow> float_add incoming (float_mul (f_activation nd) (f_weight edge))
                       | None \<Rightarrow> incoming)
                    else incoming)
              es acc)"
  using assms(2,3)
proof (induction es arbitrary: acc)
  case Nil
  then show ?case by simp
next
  case (Cons e es)
  obtain src dst edge where e: "e = ((src, dst), edge)" by (cases e) auto
  have w: "is_finite (f_weight edge)" using Cons.prems(1) by (simp add: e)
  have rest: "\<forall>(key, edge) \<in> set es. is_finite (f_weight edge)" using Cons.prems(1) by simp
  show ?case
  proof (cases "dst = node_id")
    case False
    then show ?thesis using Cons.IH [OF rest Cons.prems(2)] by (simp add: e)
  next
    case True
    show ?thesis
    proof (cases "map_of ns src")
      case None
      then show ?thesis using True Cons.IH [OF rest Cons.prems(2)] by (simp add: e)
    next
      case (Some nd)
      then have "(src, nd) \<in> set ns" by (rule map_of_SomeD)
      then have "is_finite (f_activation nd)" using assms(1) by auto
      then have "is_finite (float_add acc (float_mul (f_activation nd) (f_weight edge)))"
        using w Cons.prems(2) by (simp add: float_add_finite float_mul_finite)
      then show ?thesis using True Some Cons.IH [OF rest] by (simp add: e)
    qed
  qed
qed

lemma float_incoming_finite:
  assumes "float_activations_bounded net" and "weights_finite net"
  shows "is_finite (float_incoming_loop net node_id)"
  unfolding float_incoming_loop_def
proof (rule float_incoming_fold_finite)
  show "\<forall>(src, nd) \<in> set (f_nodes net). is_finite (f_activation nd)"
    using assms(1) by (auto simp add: float_activations_bounded_def list_all_iff in_unit_interval_finite)
  show "\<forall>(key, edge) \<in> set (f_edges net). is_finite (f_weight edge)"
    using assms(2) by (simp add: weights_finite_def list_all_iff)
  show "is_finite (Finite 0)" by simp
qed

lemma new_activation_bounded:
  fixes a x :: real
  assumes "- 1 \<le> a" and "a \<le> 1"
  shows "- 1 \<le> 0.9 * a + 0.1 * tanh x \<and> 0.9 * a + 0.1 * tanh x \<le> 1"
  using assms tanh_real_lt_1 [of x] tanh_real_gt_neg1 [of x] by simp

lemma float_new_activation_bounded:
  assumes "in_unit_interval (f_activation nd)" and "float_incoming_loop net node_id \<noteq> NaN"
  shows "in_unit_interval (float_new_activation net node_id nd)"
proof -
  obtain a where a: "f_activation nd = Finite a" "- 1 \<le> a" "a \<le> 1"
    using assms(1) by (cases "f_activation nd") simp_all
  show ?thesis
  proof (cases "float_incoming_loop net node_id")
    case (Finite x)
    then show ?thesis
      using new_activation_bounded [OF a(2,3), of x] by (simp add: float_new_activation_def a(1))
  next
    case PosInf
    then show ?thesis using a by (simp add: float_new_activation_def)
  next
    case NegInf
    then show ?thesis using a by (simp add: float_new_activation_def)
  next
    case NaN
    then show ?thesis using assms(2) by simp
  qed
qed

lemma float_step_preserves:
  assumes "wf_dict (f_nodes net)" and "weights_finite net" and "float_activations_bounded net"
  shows "\<exists>net'. float_propagate_step net = Inr net' \<and> wf_dict (f_nodes net')
           \<and> weights_finite net' \<and> float_activations_bounded net'"
proof -
  let ?net' = "net\<lparr>f_nodes := map (float_new_node net) (f_nodes net)\<rparr>"
  have run: "float_propagate_step net = Inr ?net'"
    by (rule float_propagate_step_closed [OF assms(1)])
  have wf: "wf_dict (f_nodes ?net')"
    using assms(1) by (simp add: wf_dict_def dict_keys_def float_new_node_def comp_def)
  have wt: "weights_finite ?net'"
    using assms(2) by (simp add: weights_finite_def)
  have nn: "float_incoming_loop net k \<noteq> NaN" for k
    using float_incoming_finite [OF assms(3) assms(2), of k] by auto
  have old: "in_unit_interval (f_activation nd)" if "(k, nd) \<in> set (f_nodes net)" for k nd
    using assms(3) that by (auto simp add: float_activations_bounded_def list_all_iff)
  have "in_unit_interval (f_activation (snd (float_new_node net kv)))"
    if "kv \<in> set (f_nodes net)" for kv
  proof -
    obtain k nd where kv: "kv = (k, nd)" by (cases kv)
    have "in_unit_interval (float_new_activation net k nd)"
      by (rule float_new_activation_bounded) (use that kv old nn in auto)
    then show ?thesis by (simp add: kv float_new_node_def)
  qed
  then have bd: "float_activations_bounded ?net'"
    by (simp add: float_activations_bounded_def list_all_iff case_prod_beta)
  show ?thesis using run wf wt bd by blast
qed

lemma float_loop_preserves:
  assumes "wf_dict (f_nodes net)" and "weights_finite net" and "float_activations_bounded net"
  shows "\<exists>net'. float_propagate_loop k net = Inr net' \<and> float_activations_bounded net'"
  using assms
proof (induction k arbitrary: net)
  case 0
  then show ?case by simp
next
  case (Suc k)
  obtain net1 where step: "float_propagate_step net = Inr net1"
    and ok: "wf_dict (f_nodes net1)" "weights_finite net1" "float_activations_bounded net1"
    using float_step_preserves [OF Suc.prems] by blast
  show ?case
    using Suc.IH [OF ok] by (simp add: step)
qed

lemma float_relay_nodes:
  "f_nodes float_relay_network = [(''a'', \<lparr>f_activation = Finite 1\<rparr>), (''b'', \<lparr>f_activation = Finite 0\<rparr>)]"
  by (simp add: float_relay_network_def float_add_edge_def float_add_node_def
        float_empty_network_def dict_set_def)

lemma float_relay_edges:
  "f_edges float_relay_network =
     [((''a'', ''b''), \<lparr>f_weight = Finite 0.5, f_causal_strength = Finite 0.5\<rparr>),
      ((''ghost'', ''b''), \<lparr>f_weight = Finite 0.7, f_causal_strength = Finite 0.5\<rparr>)]"
  by (simp add: float_relay_network_def float_add_edge_def float_add_node_def
        float_empty_network_def dict_set_def)

lemma inf_loop_nodes: "f_nodes inf_loop_network = [(''a'', \<lparr>f_activation = Finite 0\<rparr>)]"
  by (simp add: inf_loop_network_def float_add_edge_def float_add_node_def
        float_empty_network_def dict_set_def)

lemma inf_loop_edges:
  "f_edges inf_loop_network = [((''a'', ''a''), \<lparr>f_weight = PosInf, f_causal_strength = Finite 0.5\<rparr>)]"
  by (simp add: inf_loop_network_def float_add_edge_def float_add_node_def
        float_empty_network_def dict_set_def)

text \<open>
  C9, as the code has it.  When every node activation lies in the interval from -1 to 1 and
  every edge weight is finite, \<open>propagate\<close> with any number of steps succeeds and every node
  activation of the result lies in that interval.
\<close>

theorem float_propagate_keeps_unit_interval:
  assumes "wf_dict (f_nodes net)" and "weights_finite net" and "float_activations_bounded net"
  shows "\<exists>net'. float_propagate net steps = Inr net' \<and> float_activations_bounded net'"
  unfolding float_propagate_def by (rule float_loop_preserves [OF assms])

theorem float_propagate_keeps_unit_interval_witness:
  "wf_dict (f_nodes float_relay_network) \<and> weights_finite float_relay_network
   \<and> float_activations_bounded float_relay_network
   \<and> (\<exists>net'. float_propagate float_relay_network 2 = Inr net' \<and> float_activations_bounded net')"
  using float_propagate_keeps_unit_interval [of float_relay_network 2]
  by (simp add: wf_dict_def dict_keys_def weights_finite_def float_activations_bounded_def
        float_relay_nodes float_relay_edges)

text \<open>
  C9, as the claim has it, fails without the condition on the weights: on one node at
  activation 0.0 with an edge to itself of weight \<open>inf\<close>, the incoming sum is
  \<open>0.0 * inf = nan\<close>, and one step leaves the activation \<open>nan\<close>, outside the interval.
\<close>

theorem propagate_infinite_weight_counterexample:
  "wf_dict (f_nodes inf_loop_network)
   \<and> float_activations_bounded inf_loop_network
   \<and> float_propagate inf_loop_network 1
        = Inr (inf_loop_network\<lparr>f_nodes := [(''a'', \<lparr>f_activation = NaN\<rparr>)]\<rparr>)
   \<and> \<not> float_activations_bounded (inf_loop_network\<lparr>f_nodes := [(''a'', \<lparr>f_activation = NaN\<rparr>)]\<rparr>)"
  by (simp add: wf_dict_def dict_keys_def float_activations_bounded_def float_propagate_def
        float_propagate_step_def float_new_activations_body_def float_write_back_body_def
        float_new_activation_def float_incoming_loop_def dict_get_def dict_set_def
        inf_loop_nodes inf_loop_edges)

end
